theory Spec2Isabelle
  imports Main "HOL-Library.Char_ord" "HOL-Library.List_Lexorder"
begin

section \<open>Functional dependencies and dependency sets (fd.py)\<close>

text \<open>
  An attribute is a Python \<open>str\<close>. A \<open>frozenset[str]\<close> is a set of attributes; Python
  sets are finite, which the theorems below assume wherever a set is iterated.
\<close>

type_synonym attr = string

text \<open>\<open>class FD\<close>: two frozensets; \<open>__eq__\<close> compares both fields, as record equality does.\<close>

record FD =
  lhs :: "attr set"
  rhs :: "attr set"

text \<open>\<open>class FDSet\<close>: the list \<open>self.fds\<close>.\<close>

record FDSet =
  fds :: "FD list"

subsection \<open>closure\<close>

text \<open>
  One run of the \<open>for fd in self.fds\<close> loop of \<open>FDSet.closure\<close>, on the pair
  \<open>(closure_set, changed)\<close>.
\<close>

fun closure_pass :: "FD list \<Rightarrow> attr set \<times> bool \<Rightarrow> attr set \<times> bool" where
  "closure_pass [] st = st"
| "closure_pass (fd # rest) (cs, changed) =
     (if lhs fd \<subseteq> cs \<and> \<not> rhs fd \<subseteq> cs
      then closure_pass rest (cs \<union> rhs fd, True)
      else closure_pass rest (cs, changed))"

lemma closure_pass_mono: "closure_pass F (cs, c) = (cs', c') \<Longrightarrow> cs \<subseteq> cs'"
proof (induction F arbitrary: cs c)
  case Nil
  then show ?case by simp
next
  case (Cons fd F)
  show ?case
  proof (cases "lhs fd \<subseteq> cs \<and> \<not> rhs fd \<subseteq> cs")
    case True
    with Cons.prems have "closure_pass F (cs \<union> rhs fd, True) = (cs', c')" by simp
    from Cons.IH [OF this] show ?thesis by blast
  next
    case False
    with Cons.prems have "closure_pass F (cs, c) = (cs', c')" by auto
    from Cons.IH [OF this] show ?thesis .
  qed
qed

lemma closure_pass_fired:
  "closure_pass F (cs, c) = (cs', True) \<Longrightarrow> c \<or> (\<exists>fd \<in> set F. \<not> rhs fd \<subseteq> cs \<and> rhs fd \<subseteq> cs')"
proof (induction F arbitrary: cs c)
  case Nil
  then show ?case by simp
next
  case (Cons fd F)
  show ?case
  proof (cases "lhs fd \<subseteq> cs \<and> \<not> rhs fd \<subseteq> cs")
    case True
    with Cons.prems have p: "closure_pass F (cs \<union> rhs fd, True) = (cs', True)" by simp
    from closure_pass_mono [OF p] have "rhs fd \<subseteq> cs'" by blast
    with True show ?thesis by auto
  next
    case False
    with Cons.prems have p: "closure_pass F (cs, c) = (cs', True)" by auto
    from Cons.IH [OF p] show ?thesis by auto
  qed
qed

lemma closure_pass_measure:
  assumes "closure_pass F (cs, False) = (cs', True)"
  shows "length (filter (\<lambda>fd. \<not> rhs fd \<subseteq> cs') F) < length (filter (\<lambda>fd. \<not> rhs fd \<subseteq> cs) F)"
proof -
  from closure_pass_mono [OF assms] have sub: "cs \<subseteq> cs'" .
  from closure_pass_fired [OF assms] obtain fd
    where fd: "fd \<in> set F" "\<not> rhs fd \<subseteq> cs" "rhs fd \<subseteq> cs'" by blast
  let ?P = "\<lambda>fd. \<not> rhs fd \<subseteq> cs" and ?Q = "\<lambda>fd. \<not> rhs fd \<subseteq> cs'"
  have "filter ?Q F = filter ?Q (filter ?P F)"
    using sub by (auto intro!: filter_cong)
  moreover have "length (filter ?Q (filter ?P F)) < length (filter ?P F)"
    using fd by (intro length_filter_less [of fd]) auto
  ultimately show ?thesis by simp
qed

text \<open>
  The \<open>while changed\<close> loop of \<open>FDSet.closure\<close>: passes are repeated until one changes
  nothing. Each pass that changes something brings the right side of one more
  dependency into the set, so the loop ends.
\<close>

function closure_loop :: "FD list \<Rightarrow> attr set \<Rightarrow> attr set" where
  "closure_loop F cs =
     (case closure_pass F (cs, False) of
        (cs', changed) \<Rightarrow> if changed then closure_loop F cs' else cs')"
  by pat_completeness auto
termination
proof (relation "measure (\<lambda>(F, cs). length (filter (\<lambda>fd. \<not> rhs fd \<subseteq> cs) F))")
  show "wf (measure (\<lambda>(F, cs). length (filter (\<lambda>fd. \<not> rhs fd \<subseteq> cs) F)))" by simp
next
  fix F :: "FD list" and cs cs' :: "attr set" and changed :: bool
  assume "(cs', changed) = closure_pass F (cs, False)" and "changed"
  then have "closure_pass F (cs, False) = (cs', True)" by simp
  from closure_pass_measure [OF this]
  show "((F, cs'), (F, cs)) \<in> measure (\<lambda>(F, cs). length (filter (\<lambda>fd. \<not> rhs fd \<subseteq> cs) F))"
    by simp
qed

declare closure_loop.simps [simp del]

definition closure :: "FDSet \<Rightarrow> attr set \<Rightarrow> attr set" where
  "closure F attributes = closure_loop (fds F) attributes"

text \<open>\<open>FDSet.implies\<close>.\<close>

definition implies :: "FDSet \<Rightarrow> FD \<Rightarrow> bool" where
  "implies F fd = (rhs fd \<subseteq> closure F (lhs fd))"


subsection \<open>Iteration order of sets\<close>

text \<open>
  Python does not fix the order in which \<open>for attr in some_set\<close> visits a set. The order
  is a parameter \<open>en\<close> of every function that iterates over a set; \<open>set_order en\<close> says
  that \<open>en\<close> lists each finite set completely and without repetition.
\<close>

definition set_order :: "(attr set \<Rightarrow> attr list) \<Rightarrow> bool" where
  "set_order en = (\<forall>S. finite S \<longrightarrow> set (en S) = S \<and> distinct (en S))"

text \<open>
  \<open>frozenset(attr)\<close> with \<open>attr\<close> a \<open>str\<close>: a string is iterated character by character,
  so the result is the set of its one-character substrings.
\<close>

definition frozenset_str :: "attr \<Rightarrow> attr set" where
  "frozenset_str a = set (map (\<lambda>c. [c]) a)"

subsection \<open>singleton_rhs\<close>

definition singleton_rhs :: "(attr set \<Rightarrow> attr list) \<Rightarrow> FDSet \<Rightarrow> FDSet" where
  "singleton_rhs en F =
     \<lparr>fds = concat (map (\<lambda>fd. map (\<lambda>a. \<lparr>lhs = lhs fd, rhs = frozenset_str a\<rparr>) (en (rhs fd)))
                         (fds F))\<rparr>"

subsection \<open>canonical_cover\<close>

datatype error = StopIteration

text \<open>
  Step 2, the loop \<open>for attr in list(fd.lhs)\<close>: \<open>m\<close> is \<open>minimal_lhs\<close>, \<open>S\<close> is
  \<open>FDSet(singleton_fds)\<close>.
\<close>

fun minimize_lhs :: "FDSet \<Rightarrow> attr \<Rightarrow> attr list \<Rightarrow> attr set \<Rightarrow> attr set" where
  "minimize_lhs S rhs_attr [] m = m"
| "minimize_lhs S rhs_attr (a # rest) m =
     (let candidate = m - {a}
      in if rhs_attr \<in> closure S candidate
         then minimize_lhs S rhs_attr rest (m - {a})
         else minimize_lhs S rhs_attr rest m)"

text \<open>
  The body of \<open>for fd in singleton_fds\<close>. \<open>next(iter(fd.rhs))\<close> raises \<open>StopIteration\<close>
  on an empty right side.
\<close>

definition minimize_fd :: "(attr set \<Rightarrow> attr list) \<Rightarrow> FDSet \<Rightarrow> FD \<Rightarrow> error + FD" where
  "minimize_fd en S fd =
     (case en (rhs fd) of
        [] \<Rightarrow> Inl StopIteration
      | rhs_attr # _ \<Rightarrow>
          Inr \<lparr>lhs = minimize_lhs S rhs_attr (en (lhs fd)) (lhs fd), rhs = frozenset_str rhs_attr\<rparr>)"

fun minimized_fds :: "(attr set \<Rightarrow> attr list) \<Rightarrow> FDSet \<Rightarrow> FD list \<Rightarrow> error + FD list" where
  "minimized_fds en S [] = Inr []"
| "minimized_fds en S (fd # rest) =
     (case minimize_fd en S fd of
        Inl e \<Rightarrow> Inl e
      | Inr m \<Rightarrow> (case minimized_fds en S rest of Inl e \<Rightarrow> Inl e | Inr ms \<Rightarrow> Inr (m # ms)))"

text \<open>The manual de-duplication: the first occurrence of each dependency is kept.\<close>

fun unique_fds :: "FD list \<Rightarrow> FD list \<Rightarrow> FD list" where
  "unique_fds acc [] = acc"
| "unique_fds acc (fd # rest) =
     (if fd \<in> set acc then unique_fds acc rest else unique_fds (acc @ [fd]) rest)"

text \<open>
  Step 3, the inner loop \<open>while i < len(unique_fds)\<close> on \<open>(unique_fds, i, changed)\<close>:
  \<open>unique_fds.pop(i)\<close> leaves \<open>take i u @ drop (i + 1) u\<close>.
\<close>

function remove_pass :: "FD list \<Rightarrow> nat \<Rightarrow> bool \<Rightarrow> FD list \<times> bool" where
  "remove_pass u i changed =
     (if i < length u
      then (let fd = u ! i; others = \<lparr>fds = take i u @ drop (i + 1) u\<rparr>
            in if implies others fd
               then remove_pass (take i u @ drop (i + 1) u) i True
               else remove_pass u (i + 1) changed)
      else (u, changed))"
  by pat_completeness auto
termination
  by (relation "measure (\<lambda>(u, i, changed). length u - i)") auto

declare remove_pass.simps [simp del]

lemma remove_pass_length:
  "remove_pass u i c = (u', c') \<Longrightarrow> length u' \<le> length u \<and> (c' \<longrightarrow> c \<or> length u' < length u)"
proof (induction u i c rule: remove_pass.induct)
  case (1 u i changed)
  show ?case
  proof (cases "i < length u")
    case False
    with "1.prems" show ?thesis by (simp add: remove_pass.simps [of u i changed])
  next
    case True
    show ?thesis
    proof (cases "implies \<lparr>fds = take i u @ drop (i + 1) u\<rparr> (u ! i)")
      case yes: True
      with True "1.prems" have p: "remove_pass (take i u @ drop (i + 1) u) i True = (u', c')"
        by (simp add: remove_pass.simps [of u i changed])
      from "1.IH"(1) [OF True refl refl yes p] True show ?thesis by auto
    next
      case no: False
      with True "1.prems" have p: "remove_pass u (i + 1) changed = (u', c')"
        by (simp add: remove_pass.simps [of u i changed])
      from "1.IH"(2) [OF True refl refl no p] show ?thesis by auto
    qed
  qed
qed

text \<open>Step 3, the outer loop \<open>while changed\<close>.\<close>

function remove_loop :: "FD list \<Rightarrow> FD list" where
  "remove_loop u =
     (case remove_pass u 0 False of
        (u', changed) \<Rightarrow> if changed then remove_loop u' else u')"
  by pat_completeness auto
termination
proof (relation "measure length")
  show "wf (measure (length :: FD list \<Rightarrow> nat))" by simp
next
  fix u u' :: "FD list" and changed :: bool
  assume "(u', changed) = remove_pass u 0 False" and "changed"
  then have "remove_pass u 0 False = (u', True)" by simp
  from remove_pass_length [OF this] show "(u', u) \<in> measure length" by simp
qed

declare remove_loop.simps [simp del]

definition canonical_cover :: "(attr set \<Rightarrow> attr list) \<Rightarrow> FDSet \<Rightarrow> error + FDSet" where
  "canonical_cover en F =
     (let singleton_fds = fds (singleton_rhs en F)
      in case minimized_fds en \<lparr>fds = singleton_fds\<rparr> singleton_fds of
           Inl e \<Rightarrow> Inl e
         | Inr ms \<Rightarrow> Inr \<lparr>fds = remove_loop (unique_fds [] ms)\<rparr>)"

text \<open>
  \<open>FDSet.__eq__\<close>: every dependency of \<open>self\<close> is implied by \<open>other\<close> and every
  dependency of \<open>other\<close> by \<open>self\<close>.
\<close>

definition FDSet_eq :: "FDSet \<Rightarrow> FDSet \<Rightarrow> bool" where
  "FDSet_eq self other =
     (list_all (implies other) (fds self) \<and> list_all (implies self) (fds other))"

section \<open>Relation schemas (rs.py)\<close>

record RelationSchema =
  attributes :: "attr set"
  fd_set :: FDSet

subsection \<open>candidate_keys\<close>

text \<open>
  \<open>itertools.combinations(pool, r)\<close>: the \<open>r\<close>-element subsequences of the pool, in
  lexicographic order of their positions.
\<close>

fun combinations :: "'a list \<Rightarrow> nat \<Rightarrow> 'a list list" where
  "combinations xs 0 = [[]]"
| "combinations [] (Suc r) = []"
| "combinations (x # xs) (Suc r) = map ((#) x) (combinations xs r) @ combinations xs (Suc r)"

text \<open>The loop collecting \<open>all_left\<close> and \<open>all_right\<close>.\<close>

definition all_left :: "FDSet \<Rightarrow> attr set" where
  "all_left F = foldl (\<lambda>acc fd. acc \<union> lhs fd) {} (fds F)"

definition all_right :: "FDSet \<Rightarrow> attr set" where
  "all_right F = foldl (\<lambda>acc fd. acc \<union> rhs fd) {} (fds F)"

text \<open>
  The minimality test \<open>for attr in candidate\<close>: the loop breaks with \<open>is_minimal = False\<close>
  at the first attribute whose removal leaves a superkey.
\<close>

fun is_minimal :: "FDSet \<Rightarrow> attr set \<Rightarrow> attr set \<Rightarrow> attr list \<Rightarrow> bool" where
  "is_minimal F U candidate [] = True"
| "is_minimal F U candidate (a # rest) =
     (if closure F (candidate - {a}) = U then False else is_minimal F U candidate rest)"

text \<open>The body of the inner loop: the candidates appended for one \<open>subset\<close> (here \<open>sub\<close>).\<close>

definition check_subset ::
  "(attr set \<Rightarrow> attr list) \<Rightarrow> FDSet \<Rightarrow> attr set \<Rightarrow> attr set \<Rightarrow> attr set \<Rightarrow> attr list \<Rightarrow> attr set list"
where
  "check_subset en F U left isolated sub =
     (let candidate = left \<union> set sub \<union> isolated;
          closure_set = closure F candidate
      in if closure_set = U
         then (if is_minimal F U candidate (en candidate) then [candidate] else [])
         else [])"

definition candidate_keys :: "(attr set \<Rightarrow> attr list) \<Rightarrow> RelationSchema \<Rightarrow> attr set list" where
  "candidate_keys en R =
     (let U = attributes R;
          F = fd_set R;
          left = all_left F - all_right F;
          both = all_left F \<inter> all_right F;
          isolated = U - (all_left F \<union> all_right F)
      in concat (map (\<lambda>r. concat (map (check_subset en F U left isolated)
                                        (combinations (en both) r)))
                     [0 ..< card both + 1]))"

subsection \<open>The normal-form judges\<close>

text \<open>\<open>''.join(sorted(s))\<close> for a set of strings \<open>s\<close>.\<close>

definition join_sorted :: "attr set \<Rightarrow> string" where
  "join_sorted s = concat (sorted_list_of_set s)"

text \<open>\<open>prime_attrs\<close>: the union of the candidate keys.\<close>

definition prime_attrs :: "attr set list \<Rightarrow> attr set" where
  "prime_attrs keys = foldl (\<lambda>acc key. acc \<union> key) {} keys"

text \<open>
  \<open>_judge_2NF\<close>, the loop \<open>for key in candidate_keys\<close> for one dependency: at most one
  violation is appended, for the first key that matches.
\<close>

fun partial_dependency :: "FD \<Rightarrow> attr set \<Rightarrow> attr set list \<Rightarrow> string list" where
  "partial_dependency fd prime [] = []"
| "partial_dependency fd prime (key # rest) =
     (if lhs fd \<subset> key \<and> \<not> rhs fd \<subseteq> prime
      then [''Violation: '' @ join_sorted (lhs fd) @ '' -> '' @ join_sorted (rhs fd)
            @ '' is a partial dependency on candidate key '' @ join_sorted key]
      else partial_dependency fd prime rest)"

definition judge_2NF :: "(attr set \<Rightarrow> attr list) \<Rightarrow> RelationSchema \<Rightarrow> attr set list \<Rightarrow> string list" where
  "judge_2NF en R keys =
     (let prime = prime_attrs keys;
          atomic_fds = fds (singleton_rhs en (fd_set R))
      in concat (map (\<lambda>fd. partial_dependency fd prime keys) atomic_fds))"

definition judge_3NF :: "(attr set \<Rightarrow> attr list) \<Rightarrow> RelationSchema \<Rightarrow> attr set list \<Rightarrow> string list" where
  "judge_3NF en R keys =
     (let prime = prime_attrs keys;
          atomic_fds = fds (singleton_rhs en (fd_set R))
      in concat (map (\<lambda>fd.
           if list_all (\<lambda>key. \<not> key \<subseteq> lhs fd) keys \<and> \<not> rhs fd \<subseteq> prime
           then [''Violation: '' @ join_sorted (lhs fd) @ '' -> '' @ join_sorted (rhs fd)
                 @ '' is a transitive dependency'']
           else []) atomic_fds))"

definition judge_BCNF :: "(attr set \<Rightarrow> attr list) \<Rightarrow> RelationSchema \<Rightarrow> attr set list \<Rightarrow> string list" where
  "judge_BCNF en R keys =
     (let atomic_fds = fds (singleton_rhs en (fd_set R))
      in concat (map (\<lambda>fd.
           if list_all (\<lambda>key. \<not> key \<subseteq> lhs fd) keys
           then [''Violation: '' @ join_sorted (lhs fd) @ '' -> '' @ join_sorted (rhs fd)
                 @ '' violates BCNF'']
           else []) atomic_fds))"

definition judge_NF :: "(attr set \<Rightarrow> attr list) \<Rightarrow> RelationSchema \<Rightarrow> string \<times> string list" where
  "judge_NF en R =
     (let keys = candidate_keys en R;
          violations_2NF = judge_2NF en R keys
      in if violations_2NF \<noteq> [] then (''1NF'', violations_2NF)
         else let violations_3NF = judge_3NF en R keys
              in if violations_3NF \<noteq> [] then (''2NF'', violations_3NF)
                 else let violations_BCNF = judge_BCNF en R keys
                      in if violations_BCNF \<noteq> [] then (''3NF'', violations_BCNF)
                         else (''BCNF'', []))"

subsection \<open>is_lossless_decomposition\<close>

text \<open>The loop \<open>for sub_schema in sub_schemas\<close>, returning at the first fragment that holds a key.\<close>

fun contains_key :: "attr set list \<Rightarrow> attr set list \<Rightarrow> bool" where
  "contains_key keys [] = False"
| "contains_key keys (sub_schema # rest) =
     (if list_ex (\<lambda>key. key \<subseteq> sub_schema) keys then True else contains_key keys rest)"

definition is_lossless_decomposition ::
  "(attr set \<Rightarrow> attr list) \<Rightarrow> RelationSchema \<Rightarrow> attr set list \<Rightarrow> bool" where
  "is_lossless_decomposition en R sub_schemas = contains_key (candidate_keys en R) sub_schemas"

subsection \<open>A schema of the specification\<close>

text \<open>Scenario B: attributes \<open>{A,B,C,D}\<close> with the dependencies \<open>A -> B\<close>, \<open>BC -> D\<close>, \<open>D -> A\<close>.\<close>

definition scenario_B :: RelationSchema where
  "scenario_B =
     \<lparr>attributes = {''A'', ''B'', ''C'', ''D''},
      fd_set = \<lparr>fds = [\<lparr>lhs = {''A''}, rhs = {''B''}\<rparr>,
                       \<lparr>lhs = {''B'', ''C''}, rhs = {''D''}\<rparr>,
                       \<lparr>lhs = {''D''}, rhs = {''A''}\<rparr>]\<rparr>\<rparr>"

section \<open>Construction of dependency sets and the default argument\<close>

text \<open>
  \<open>def __init__(self, fds: list[FD] = [])\<close> stores the argument itself in \<open>self.fds\<close>.
  Lists are mutable objects, so the constructor is modelled on a store of list objects.
  The default value \<open>[]\<close> is evaluated once, when the \<open>def\<close> statement is executed; its
  address is kept in \<open>default_fds\<close>. The algorithms above never mutate a list they did
  not build themselves, which is why they are modelled on list values.
\<close>

type_synonym addr = nat

record store =
  lists :: "addr \<rightharpoonup> FD list"
  fresh :: addr
  default_fds :: addr

record FDSet_obj =
  fds_ref :: addr

text \<open>Evaluating a list display allocates a new list object.\<close>

definition new_list :: "FD list \<Rightarrow> store \<Rightarrow> addr \<times> store" where
  "new_list xs s = (fresh s, s\<lparr>lists := (lists s)(fresh s \<mapsto> xs), fresh := fresh s + 1\<rparr>)"

text \<open>Executing the \<open>def __init__\<close> statement: the default \<open>[]\<close> is allocated here, once.\<close>

definition define_FDSet :: "store \<Rightarrow> store" where
  "define_FDSet s = (case new_list [] s of (a, s') \<Rightarrow> s'\<lparr>default_fds := a\<rparr>)"

text \<open>\<open>FDSet(fds)\<close> and, with no argument, \<open>FDSet()\<close>: \<open>self.fds = fds\<close>.\<close>

definition FDSet_init :: "addr option \<Rightarrow> store \<Rightarrow> FDSet_obj \<times> store" where
  "FDSet_init arg s =
     (case arg of
        None \<Rightarrow> (\<lparr>fds_ref = default_fds s\<rparr>, s)
      | Some a \<Rightarrow> (\<lparr>fds_ref = a\<rparr>, s))"

text \<open>\<open>obj.fds.append(fd)\<close> and reading \<open>obj.fds\<close>.\<close>

definition fds_append :: "FDSet_obj \<Rightarrow> FD \<Rightarrow> store \<Rightarrow> store" where
  "fds_append obj fd s =
     (case lists s (fds_ref obj) of
        None \<Rightarrow> s
      | Some xs \<Rightarrow> s\<lparr>lists := (lists s)(fds_ref obj \<mapsto> xs @ [fd])\<rparr>)"

definition fds_of :: "FDSet_obj \<Rightarrow> store \<Rightarrow> FD list option" where
  "fds_of obj s = lists s (fds_ref obj)"

definition empty_store :: store where
  "empty_store = \<lparr>lists = Map.empty, fresh = 0, default_fds = 0\<rparr>"

section \<open>Lemmas\<close>

subsection \<open>The closure as a least closed superset\<close>

text \<open>A set is closed under a list of dependencies when no dependency can fire on it.\<close>

definition closed_under :: "FD list \<Rightarrow> attr set \<Rightarrow> bool" where
  "closed_under F S = (\<forall>fd \<in> set F. lhs fd \<subseteq> S \<longrightarrow> rhs fd \<subseteq> S)"

lemma closure_pass_quiet:
  "closure_pass F (cs, False) = (cs', False) \<Longrightarrow> cs' = cs \<and> closed_under F cs"
proof (induction F)
  case Nil
  then show ?case by (simp add: closed_under_def)
next
  case (Cons fd F)
  show ?case
  proof (cases "lhs fd \<subseteq> cs \<and> \<not> rhs fd \<subseteq> cs")
    case True
    with Cons.prems have p: "closure_pass F (cs \<union> rhs fd, True) = (cs', False)" by simp
    obtain r where "closure_pass F (cs \<union> rhs fd, True) = (r, True)"
    proof -
      have "\<And>S. \<exists>r. closure_pass F (S, True) = (r, True)"
        by (induction F) auto
      then show ?thesis using that by blast
    qed
    with p show ?thesis by simp
  next
    case False
    with Cons.prems have "closure_pass F (cs, False) = (cs', False)" by auto
    from Cons.IH [OF this] False show ?thesis by (auto simp: closed_under_def)
  qed
qed

lemma closure_pass_below:
  "closure_pass F (cs, c) = (cs', c') \<Longrightarrow> cs \<subseteq> T \<Longrightarrow> closed_under F T \<Longrightarrow> cs' \<subseteq> T"
proof (induction F arbitrary: cs c)
  case Nil
  then show ?case by simp
next
  case (Cons fd F)
  from Cons.prems(3) have cl: "closed_under F T" by (simp add: closed_under_def)
  show ?case
  proof (cases "lhs fd \<subseteq> cs \<and> \<not> rhs fd \<subseteq> cs")
    case True
    with Cons.prems(1) have p: "closure_pass F (cs \<union> rhs fd, True) = (cs', c')" by simp
    from True Cons.prems(2,3) have "cs \<union> rhs fd \<subseteq> T" by (auto simp: closed_under_def)
    from Cons.IH [OF p this cl] show ?thesis .
  next
    case False
    with Cons.prems(1) have p: "closure_pass F (cs, c) = (cs', c')" by auto
    from Cons.IH [OF p Cons.prems(2) cl] show ?thesis .
  qed
qed

lemma closure_loop_extensive: "cs \<subseteq> closure_loop F cs"
proof (induction F cs rule: closure_loop.induct)
  case (1 F cs)
  obtain cs' ch where p: "closure_pass F (cs, False) = (cs', ch)" by (cases "closure_pass F (cs, False)")
  from closure_pass_mono [OF p] have sub: "cs \<subseteq> cs'" .
  show ?case
  proof (cases ch)
    case True
    with p "1.IH" [of cs' ch] have "cs' \<subseteq> closure_loop F cs'" by simp
    moreover from p True have "closure_loop F cs = closure_loop F cs'"
      by (subst closure_loop.simps) simp
    ultimately show ?thesis using sub by simp
  next
    case False
    with p have "closure_loop F cs = cs'" by (subst closure_loop.simps) simp
    with sub show ?thesis by simp
  qed
qed

lemma closure_loop_closed: "closed_under F (closure_loop F cs)"
proof (induction F cs rule: closure_loop.induct)
  case (1 F cs)
  obtain cs' ch where p: "closure_pass F (cs, False) = (cs', ch)" by (cases "closure_pass F (cs, False)")
  show ?case
  proof (cases ch)
    case True
    with p "1.IH" [of cs' ch] have "closed_under F (closure_loop F cs')" by simp
    moreover from p True have "closure_loop F cs = closure_loop F cs'"
      by (subst closure_loop.simps) simp
    ultimately show ?thesis by simp
  next
    case False
    with p have "closure_loop F cs = cs'" by (subst closure_loop.simps) simp
    moreover from p False closure_pass_quiet [of F cs cs'] have "cs' = cs \<and> closed_under F cs" by simp
    ultimately show ?thesis by simp
  qed
qed

lemma closure_loop_least:
  "cs \<subseteq> T \<Longrightarrow> closed_under F T \<Longrightarrow> closure_loop F cs \<subseteq> T"
proof (induction F cs rule: closure_loop.induct)
  case (1 F cs)
  obtain cs' ch where p: "closure_pass F (cs, False) = (cs', ch)" by (cases "closure_pass F (cs, False)")
  from closure_pass_below [OF p "1.prems"] have sub: "cs' \<subseteq> T" .
  show ?case
  proof (cases ch)
    case True
    with p "1.IH" [of cs' ch] sub "1.prems"(2) have "closure_loop F cs' \<subseteq> T" by simp
    moreover from p True have "closure_loop F cs = closure_loop F cs'"
      by (subst closure_loop.simps) simp
    ultimately show ?thesis by simp
  next
    case False
    with p have "closure_loop F cs = cs'" by (subst closure_loop.simps) simp
    with sub show ?thesis by simp
  qed
qed

lemma closure_loop_fixed: "closed_under F cs \<Longrightarrow> closure_loop F cs = cs"
  using closure_loop_least [of cs cs F] closure_loop_extensive [of cs F] by blast

lemma closure_extensive: "X \<subseteq> closure F X"
  by (simp add: closure_def closure_loop_extensive)

lemma closure_closed: "closed_under (fds F) (closure F X)"
  by (simp add: closure_def closure_loop_closed)

lemma closure_least: "X \<subseteq> T \<Longrightarrow> closed_under (fds F) T \<Longrightarrow> closure F X \<subseteq> T"
  by (simp add: closure_def closure_loop_least)

lemma closure_mono: "X \<subseteq> Y \<Longrightarrow> closure F X \<subseteq> closure F Y"
  by (rule closure_least) (use closure_extensive closure_closed in blast)+

lemma closure_idem: "closure F (closure F X) = closure F X"
  unfolding closure_def by (rule closure_loop_fixed) (rule closure_loop_closed)

subsection \<open>Dependency sets with the same closed sets\<close>

lemma closed_under_set:
  "set F = set G \<Longrightarrow> closed_under F T = closed_under G T"
  by (simp add: closed_under_def)

lemma closure_same_closed:
  assumes "\<And>T. closed_under (fds F) T = closed_under (fds G) T"
  shows "closure F X = closure G X"
proof
  show "closure F X \<subseteq> closure G X"
    using assms closure_closed [of G X] closure_extensive [of X G] by (intro closure_least) auto
  show "closure G X \<subseteq> closure F X"
    using assms closure_closed [of F X] closure_extensive [of X F] by (intro closure_least) auto
qed

lemma implies_closed:
  "implies F fd \<Longrightarrow> closed_under (fds F) T \<Longrightarrow> lhs fd \<subseteq> T \<Longrightarrow> rhs fd \<subseteq> T"
  unfolding implies_def using closure_least [of "lhs fd" T F] by blast

lemma implies_member: "fd \<in> set (fds F) \<Longrightarrow> implies F fd"
  unfolding implies_def using closure_closed [of F "lhs fd"] closure_extensive [of "lhs fd" F]
  by (auto simp: closed_under_def)

text \<open>Step 1 of the canonical cover: the elementary dependencies have the same closed sets.\<close>

lemma frozenset_str_single: "length a = 1 \<Longrightarrow> frozenset_str a = {a}"
  by (cases a) (auto simp: frozenset_str_def)

lemma in_singleton_rhs:
  assumes "set_order en" and "\<forall>fd \<in> set (fds F). finite (rhs fd)"
  shows "m \<in> set (fds (singleton_rhs en F)) \<longleftrightarrow>
         (\<exists>fd \<in> set (fds F). \<exists>a \<in> rhs fd. m = \<lparr>lhs = lhs fd, rhs = frozenset_str a\<rparr>)"
proof -
  have "\<And>fd. fd \<in> set (fds F) \<Longrightarrow> set (en (rhs fd)) = rhs fd"
    using assms by (simp add: set_order_def)
  then show ?thesis by (auto simp: singleton_rhs_def)
qed

lemma singleton_rhs_closed:
  assumes en: "set_order en" and fin: "\<forall>fd \<in> set (fds F). finite (rhs fd)"
    and one: "\<forall>fd \<in> set (fds F). \<forall>a \<in> rhs fd. length a = 1"
  shows "closed_under (fds (singleton_rhs en F)) T = closed_under (fds F) T"
proof
  assume c: "closed_under (fds (singleton_rhs en F)) T"
  show "closed_under (fds F) T"
    unfolding closed_under_def
  proof (intro ballI impI subsetI)
    fix fd a assume fd: "fd \<in> set (fds F)" and l: "lhs fd \<subseteq> T" and a: "a \<in> rhs fd"
    let ?m = "\<lparr>lhs = lhs fd, rhs = frozenset_str a\<rparr>"
    from fd a have "?m \<in> set (fds (singleton_rhs en F))"
      unfolding in_singleton_rhs [OF en fin] by blast
    with c l have "frozenset_str a \<subseteq> T" unfolding closed_under_def by fastforce
    moreover from one fd a have "frozenset_str a = {a}" by (simp add: frozenset_str_single)
    ultimately show "a \<in> T" by simp
  qed
next
  assume c: "closed_under (fds F) T"
  show "closed_under (fds (singleton_rhs en F)) T"
    unfolding closed_under_def
  proof (intro ballI impI)
    fix m assume "m \<in> set (fds (singleton_rhs en F))" and l: "lhs m \<subseteq> T"
    then obtain fd a where fd: "fd \<in> set (fds F)" and a: "a \<in> rhs fd"
      and m: "m = \<lparr>lhs = lhs fd, rhs = frozenset_str a\<rparr>"
      unfolding in_singleton_rhs [OF en fin] by blast
    from one fd a have "frozenset_str a = {a}" by (simp add: frozenset_str_single)
    moreover from c fd l m have "rhs fd \<subseteq> T" unfolding closed_under_def by simp
    ultimately show "rhs m \<subseteq> T" using a m by auto
  qed
qed

subsection \<open>The three steps of the canonical cover\<close>

lemma en_singleton: "set_order en \<Longrightarrow> en {a} = [a]"
proof -
  assume "set_order en"
  then have s: "set (en {a}) = {a}" and d: "distinct (en {a})" by (simp_all add: set_order_def)
  from d have "length (en {a}) = card (set (en {a}))" by (simp add: distinct_card)
  with s have "length (en {a}) = 1" by simp
  then obtain x where "en {a} = [x]" by (cases "en {a}") auto
  with s show ?thesis by simp
qed

lemma minimize_lhs_sub: "minimize_lhs S a bs m \<subseteq> m"
  by (induction bs arbitrary: m) (auto simp: Let_def)

lemma minimize_lhs_keeps:
  "a \<in> closure S m \<Longrightarrow> a \<in> closure S (minimize_lhs S a bs m)"
  by (induction bs arbitrary: m) (auto simp: Let_def)

lemma minimized_fds_rel:
  assumes en: "set_order en"
    and el: "\<forall>fd \<in> set L. \<exists>a. rhs fd = {a} \<and> length a = 1"
  shows "\<exists>ms. minimized_fds en S L = Inr ms \<and>
           list_all2 (\<lambda>fd m. rhs m = rhs fd \<and> lhs m \<subseteq> lhs fd \<and> (implies S fd \<longrightarrow> implies S m)) L ms"
  using el
proof (induction L)
  case Nil
  then show ?case by simp
next
  case (Cons fd L)
  from Cons.prems obtain a where a: "rhs fd = {a}" "length a = 1" by auto
  from Cons.prems Cons.IH obtain ms where ms: "minimized_fds en S L = Inr ms"
    "list_all2 (\<lambda>fd m. rhs m = rhs fd \<and> lhs m \<subseteq> lhs fd \<and> (implies S fd \<longrightarrow> implies S m)) L ms"
    by auto
  let ?m = "\<lparr>lhs = minimize_lhs S a (en (lhs fd)) (lhs fd), rhs = frozenset_str a\<rparr>"
  have mf: "minimize_fd en S fd = Inr ?m"
    by (simp add: minimize_fd_def a en_singleton [OF en])
  have r: "rhs ?m = rhs fd" using a by (simp add: frozenset_str_single)
  have l: "lhs ?m \<subseteq> lhs fd" by (simp add: minimize_lhs_sub)
  have i: "implies S fd \<longrightarrow> implies S ?m"
    using a minimize_lhs_keeps [of a S "lhs fd" "en (lhs fd)"]
    by (simp add: implies_def frozenset_str_single)
  from mf ms r l i show ?case by simp
qed

lemma list_all2_pick_right: "list_all2 R xs ys \<Longrightarrow> x \<in> set xs \<Longrightarrow> \<exists>y \<in> set ys. R x y"
  by (induction rule: list_all2_induct) auto

lemma list_all2_pick_left: "list_all2 R xs ys \<Longrightarrow> y \<in> set ys \<Longrightarrow> \<exists>x \<in> set xs. R x y"
  by (induction rule: list_all2_induct) auto

lemma minimized_fds_closed:
  assumes "list_all2 (\<lambda>fd m. rhs m = rhs fd \<and> lhs m \<subseteq> lhs fd \<and> (implies \<lparr>fds = L\<rparr> fd \<longrightarrow> implies \<lparr>fds = L\<rparr> m)) L ms"
  shows "closed_under ms T = closed_under L T"
proof
  assume c: "closed_under ms T"
  show "closed_under L T" unfolding closed_under_def
  proof (intro ballI impI)
    fix fd assume "fd \<in> set L" and l: "lhs fd \<subseteq> T"
    with list_all2_pick_right [OF assms, of fd]
    obtain m where "m \<in> set ms" "rhs m = rhs fd" "lhs m \<subseteq> lhs fd" by blast
    with c l show "rhs fd \<subseteq> T" unfolding closed_under_def by force
  qed
next
  assume c: "closed_under L T"
  show "closed_under ms T" unfolding closed_under_def
  proof (intro ballI impI)
    fix m assume "m \<in> set ms" and l: "lhs m \<subseteq> T"
    with list_all2_pick_left [OF assms, of m]
    obtain fd where fd: "fd \<in> set L" and i: "implies \<lparr>fds = L\<rparr> fd \<longrightarrow> implies \<lparr>fds = L\<rparr> m"
      by blast
    from fd have "implies \<lparr>fds = L\<rparr> fd" by (simp add: implies_member)
    with i have "implies \<lparr>fds = L\<rparr> m" by simp
    from implies_closed [OF this _ l] c show "rhs m \<subseteq> T" by simp
  qed
qed

lemma set_unique_fds: "set (unique_fds acc L) = set acc \<union> set L"
  by (induction L arbitrary: acc) auto

lemma pop_closed:
  assumes i: "i < length u" and imp: "implies \<lparr>fds = take i u @ drop (i + 1) u\<rparr> (u ! i)"
  shows "closed_under (take i u @ drop (i + 1) u) T = closed_under u T"
proof -
  have u: "set u = insert (u ! i) (set (take i u @ drop (i + 1) u))"
    using id_take_nth_drop [OF i] by (metis Suc_eq_plus1 list.simps(15) set_append Un_insert_right)
  show ?thesis
  proof
    assume c: "closed_under (take i u @ drop (i + 1) u) T"
    have "lhs (u ! i) \<subseteq> T \<Longrightarrow> rhs (u ! i) \<subseteq> T"
      using implies_closed [OF imp] c by simp
    with c show "closed_under u T" unfolding closed_under_def u by auto
  next
    assume "closed_under u T"
    then show "closed_under (take i u @ drop (i + 1) u) T" unfolding closed_under_def u by auto
  qed
qed

lemma remove_pass_closed:
  "remove_pass u i c = (u', c') \<Longrightarrow> closed_under u' T = closed_under u T"
proof (induction u i c rule: remove_pass.induct)
  case (1 u i changed)
  show ?case
  proof (cases "i < length u")
    case False
    with "1.prems" show ?thesis by (simp add: remove_pass.simps [of u i changed])
  next
    case True
    show ?thesis
    proof (cases "implies \<lparr>fds = take i u @ drop (i + 1) u\<rparr> (u ! i)")
      case yes: True
      with True "1.prems" have p: "remove_pass (take i u @ drop (i + 1) u) i True = (u', c')"
        by (simp add: remove_pass.simps [of u i changed])
      from "1.IH"(1) [OF True refl refl yes p] pop_closed [OF True yes] show ?thesis by simp
    next
      case no: False
      with True "1.prems" have p: "remove_pass u (i + 1) changed = (u', c')"
        by (simp add: remove_pass.simps [of u i changed])
      from "1.IH"(2) [OF True refl refl no p] show ?thesis .
    qed
  qed
qed

lemma remove_loop_closed: "closed_under (remove_loop u) T = closed_under u T"
proof (induction u rule: remove_loop.induct)
  case (1 u)
  obtain u' ch where p: "remove_pass u 0 False = (u', ch)" by (cases "remove_pass u 0 False")
  from remove_pass_closed [OF p] have e: "closed_under u' T = closed_under u T" .
  show ?case
  proof (cases ch)
    case True
    with p "1.IH" [of u' ch] have "closed_under (remove_loop u') T = closed_under u' T" by simp
    moreover from p True have "remove_loop u = remove_loop u'" by (subst remove_loop.simps) simp
    ultimately show ?thesis using e by simp
  next
    case False
    with p have "remove_loop u = u'" by (subst remove_loop.simps) simp
    with e show ?thesis by simp
  qed
qed

lemma FDSet_eq_same_closed:
  assumes "\<And>T. closed_under (fds G) T = closed_under (fds F) T"
  shows "FDSet_eq G F"
proof -
  have c: "\<And>X. closure G X = closure F X" by (rule closure_same_closed) (rule assms)
  have "\<And>fd. fd \<in> set (fds G) \<Longrightarrow> implies F fd"
    using implies_member [of _ G] by (simp add: implies_def c)
  moreover have "\<And>fd. fd \<in> set (fds F) \<Longrightarrow> implies G fd"
    using implies_member [of _ F] by (simp add: implies_def c)
  ultimately show ?thesis by (simp add: FDSet_eq_def list_all_iff)
qed

text \<open>
  When every attribute on a right side is a string of one character, \<open>frozenset(attr)\<close>
  is the singleton of the attribute; then \<open>canonical_cover\<close> returns, for every iteration
  order, and its result has the same closed sets as the dependency set it was computed
  from, so the two are equal in the sense of \<open>FDSet.__eq__\<close>.
\<close>

lemma canonical_cover_equivalent_single_char:
  assumes en: "set_order en" and fin: "\<forall>fd \<in> set (fds F). finite (rhs fd)"
    and one: "\<forall>fd \<in> set (fds F). \<forall>a \<in> rhs fd. length a = 1"
  shows "\<exists>G. canonical_cover en F = Inr G \<and> FDSet_eq G F"
proof -
  let ?L = "fds (singleton_rhs en F)"
  have el: "\<forall>fd \<in> set ?L. \<exists>a. rhs fd = {a} \<and> length a = 1"
  proof
    fix m assume "m \<in> set ?L"
    then obtain fd a where "fd \<in> set (fds F)" "a \<in> rhs fd" "m = \<lparr>lhs = lhs fd, rhs = frozenset_str a\<rparr>"
      unfolding in_singleton_rhs [OF en fin] by blast
    with one show "\<exists>a. rhs m = {a} \<and> length a = 1" by (auto simp: frozenset_str_single)
  qed
  from minimized_fds_rel [OF en el, of "\<lparr>fds = ?L\<rparr>"] obtain ms
    where ms: "minimized_fds en \<lparr>fds = ?L\<rparr> ?L = Inr ms"
      and rel: "list_all2 (\<lambda>fd m. rhs m = rhs fd \<and> lhs m \<subseteq> lhs fd \<and>
                  (implies \<lparr>fds = ?L\<rparr> fd \<longrightarrow> implies \<lparr>fds = ?L\<rparr> m)) ?L ms"
    by blast
  let ?G = "\<lparr>fds = remove_loop (unique_fds [] ms)\<rparr>"
  have cc: "canonical_cover en F = Inr ?G"
    by (simp add: canonical_cover_def Let_def ms)
  have "closed_under (fds ?G) T = closed_under (fds F) T" for T
  proof -
    have "closed_under (fds ?G) T = closed_under (unique_fds [] ms) T"
      by (simp add: remove_loop_closed)
    also have "\<dots> = closed_under ms T"
      by (rule closed_under_set) (simp add: set_unique_fds)
    also have "\<dots> = closed_under ?L T" by (rule minimized_fds_closed [OF rel])
    also have "\<dots> = closed_under (fds F) T" by (rule singleton_rhs_closed [OF en fin one])
    finally show ?thesis .
  qed
  then have "FDSet_eq ?G F" by (rule FDSet_eq_same_closed)
  with cc show ?thesis by blast
qed

subsection \<open>A dependency set with a two-character attribute\<close>

lemma set_order_sorted: "set_order sorted_list_of_set"
  by (simp add: set_order_def)

lemma en_first:
  assumes "set_order en" and "finite S" and "S \<noteq> {}"
  shows "\<exists>r rest. en S = r # rest \<and> r \<in> S"
proof -
  from assms have s: "set (en S) = S" by (simp add: set_order_def)
  with assms(3) obtain r rest where "en S = r # rest" by (cases "en S") auto
  with s show ?thesis by auto
qed

lemma multi_char_minimize:
  "minimize_lhs \<lparr>fds = [\<lparr>lhs = {''x''}, rhs = frozenset_str ''ab''\<rparr>]\<rparr> ''a'' [''x''] {''x''} = {''x''}"
  "minimize_lhs \<lparr>fds = [\<lparr>lhs = {''x''}, rhs = frozenset_str ''ab''\<rparr>]\<rparr> ''b'' [''x''] {''x''} = {''x''}"
  by code_simp+

lemma multi_char_remove:
  "remove_loop (unique_fds [] [\<lparr>lhs = {''x''}, rhs = frozenset_str ''a''\<rparr>]) = [\<lparr>lhs = {''x''}, rhs = frozenset_str ''a''\<rparr>]"
  "remove_loop (unique_fds [] [\<lparr>lhs = {''x''}, rhs = frozenset_str ''b''\<rparr>]) = [\<lparr>lhs = {''x''}, rhs = frozenset_str ''b''\<rparr>]"
  by code_simp+

lemma multi_char_differs:
  "\<not> FDSet_eq \<lparr>fds = [\<lparr>lhs = {''x''}, rhs = frozenset_str ''a''\<rparr>]\<rparr> \<lparr>fds = [\<lparr>lhs = {''x''}, rhs = {''ab''}\<rparr>]\<rparr>"
  "\<not> FDSet_eq \<lparr>fds = [\<lparr>lhs = {''x''}, rhs = frozenset_str ''b''\<rparr>]\<rparr> \<lparr>fds = [\<lparr>lhs = {''x''}, rhs = {''ab''}\<rparr>]\<rparr>"
  by code_simp+

section \<open>Properties of the closure\<close>

text \<open>
  Claim C4. For every dependency set \<open>F\<close> and attribute set \<open>X\<close>: \<open>X\<close> is a subset of
  \<open>closure_F(X)\<close>, and \<open>closure_F(closure_F(X))\<close> equals \<open>closure_F(X)\<close>.
\<close>

theorem closure_reflexive_idempotent:
  "X \<subseteq> closure F X \<and> closure F (closure F X) = closure F X"
  by (simp add: closure_extensive closure_idem)

text \<open>
  Claim C8. The closure is a total function, also on dependencies with an empty left
  side: when \<open>F\<close> contains the dependency with left side \<open>{}\<close> and right side \<open>R\<close>, the
  closure of every \<open>X\<close> contains \<open>R\<close>.
\<close>

theorem closure_empty_lhs:
  "\<lparr>lhs = {}, rhs = R\<rparr> \<in> set (fds F) \<Longrightarrow> R \<subseteq> closure F X"
  using closure_closed [of F X] by (force simp: closed_under_def)

theorem closure_empty_lhs_witness:
  "\<lparr>lhs = {}, rhs = {''B''}\<rparr> \<in> set (fds \<lparr>fds = [\<lparr>lhs = {}, rhs = {''B''}\<rparr>]\<rparr>)
   \<and> {''B''} \<subseteq> closure \<lparr>fds = [\<lparr>lhs = {}, rhs = {''B''}\<rparr>]\<rparr> {''A''}"
proof -
  have h: "\<lparr>lhs = {}, rhs = {''B''}\<rparr> \<in> set (fds \<lparr>fds = [\<lparr>lhs = {}, rhs = {''B''}\<rparr>]\<rparr>)"
    by simp
  from closure_empty_lhs [OF h, of "{''A''}"] h show ?thesis by simp
qed

section \<open>The canonical cover\<close>

text \<open>
  Claim C1. For every dependency set \<open>F\<close>, the canonical cover of \<open>F\<close> is semantically
  equal to \<open>F\<close>. On the code this fails for an attribute that is a string of more than
  one character: \<open>frozenset(attr)\<close> splits it into its characters. For the dependency
  set with the single dependency \<open>{x} -> {ab}\<close> and every iteration order, the cover is
  returned and is not equal to the set.
\<close>

theorem canonical_cover_multi_char:
  assumes "set_order en"
  shows "\<exists>G. canonical_cover en \<lparr>fds = [\<lparr>lhs = {''x''}, rhs = {''ab''}\<rparr>]\<rparr> = Inr G
            \<and> \<not> FDSet_eq G \<lparr>fds = [\<lparr>lhs = {''x''}, rhs = {''ab''}\<rparr>]\<rparr>"
proof -
  have ab: "frozenset_str ''ab'' = {''a'', ''b''}" by (simp add: frozenset_str_def)
  from en_first [OF assms, of "frozenset_str ''ab''"] obtain r rest
    where r: "en (frozenset_str ''ab'') = r # rest" "r = ''a'' \<or> r = ''b''"
    unfolding ab by auto
  have s: "fds (singleton_rhs en \<lparr>fds = [\<lparr>lhs = {''x''}, rhs = {''ab''}\<rparr>]\<rparr>)
           = [\<lparr>lhs = {''x''}, rhs = frozenset_str ''ab''\<rparr>]"
    by (simp add: singleton_rhs_def en_singleton [OF assms])
  from r(2) show ?thesis
  proof
    assume "r = ''a''"
    with r(1) have "canonical_cover en \<lparr>fds = [\<lparr>lhs = {''x''}, rhs = {''ab''}\<rparr>]\<rparr>
        = Inr \<lparr>fds = [\<lparr>lhs = {''x''}, rhs = frozenset_str ''a''\<rparr>]\<rparr>"
      by (simp add: canonical_cover_def s minimize_fd_def en_singleton [OF assms] Let_def
            multi_char_minimize multi_char_remove del: minimize_lhs.simps unique_fds.simps)
    with multi_char_differs(1) show ?thesis by simp
  next
    assume "r = ''b''"
    with r(1) have "canonical_cover en \<lparr>fds = [\<lparr>lhs = {''x''}, rhs = {''ab''}\<rparr>]\<rparr>
        = Inr \<lparr>fds = [\<lparr>lhs = {''x''}, rhs = frozenset_str ''b''\<rparr>]\<rparr>"
      by (simp add: canonical_cover_def s minimize_fd_def en_singleton [OF assms] Let_def
            multi_char_minimize multi_char_remove del: minimize_lhs.simps unique_fds.simps)
    with multi_char_differs(2) show ?thesis by simp
  qed
qed

theorem canonical_cover_multi_char_witness:
  "set_order sorted_list_of_set \<and>
   canonical_cover sorted_list_of_set \<lparr>fds = [\<lparr>lhs = {''x''}, rhs = {''ab''}\<rparr>]\<rparr>
     = Inr \<lparr>fds = [\<lparr>lhs = {''x''}, rhs = {''a''}\<rparr>]\<rparr>
   \<and> (\<exists>G. canonical_cover sorted_list_of_set \<lparr>fds = [\<lparr>lhs = {''x''}, rhs = {''ab''}\<rparr>]\<rparr> = Inr G
            \<and> \<not> FDSet_eq G \<lparr>fds = [\<lparr>lhs = {''x''}, rhs = {''ab''}\<rparr>]\<rparr>)"
proof -
  have e: "canonical_cover sorted_list_of_set \<lparr>fds = [\<lparr>lhs = {''x''}, rhs = {''ab''}\<rparr>]\<rparr>
     = Inr \<lparr>fds = [\<lparr>lhs = {''x''}, rhs = {''a''}\<rparr>]\<rparr>"
    by code_simp
  from canonical_cover_multi_char [OF set_order_sorted] set_order_sorted e show ?thesis by blast
qed

text \<open>An attribute that is the empty string makes \<open>next(iter(fd.rhs))\<close> raise.\<close>

lemma canonical_cover_empty_string:
  "canonical_cover sorted_list_of_set \<lparr>fds = [\<lparr>lhs = {''A''}, rhs = {''''}\<rparr>]\<rparr> = Inl StopIteration"
  by code_simp

text \<open>One of the repository's tests: the redundant dependency \<open>A -> C\<close> is removed.\<close>

lemma canonical_cover_single_char_example:
  "canonical_cover sorted_list_of_set
     \<lparr>fds = [\<lparr>lhs = {''A''}, rhs = {''B''}\<rparr>, \<lparr>lhs = {''A''}, rhs = {''C''}\<rparr>, \<lparr>lhs = {''B''}, rhs = {''C''}\<rparr>]\<rparr>
   = Inr \<lparr>fds = [\<lparr>lhs = {''A''}, rhs = {''B''}\<rparr>, \<lparr>lhs = {''B''}, rhs = {''C''}\<rparr>]\<rparr>"
  by code_simp

section \<open>The normal-form judgment and the decomposition test\<close>

text \<open>
  Claim C5. \<open>judge_NF\<close> runs the three judges in order on the candidate keys and stops
  at the first one that reports violations: level \<open>1NF\<close> with the violations of the 2NF
  judge, else level \<open>2NF\<close> with those of the 3NF judge, else level \<open>3NF\<close> with those of
  the BCNF judge, else level \<open>BCNF\<close> with no violation.
\<close>

theorem judge_NF_stages:
  "judge_NF en R =
     (if judge_2NF en R (candidate_keys en R) \<noteq> []
      then (''1NF'', judge_2NF en R (candidate_keys en R))
      else if judge_3NF en R (candidate_keys en R) \<noteq> []
      then (''2NF'', judge_3NF en R (candidate_keys en R))
      else if judge_BCNF en R (candidate_keys en R) \<noteq> []
      then (''3NF'', judge_BCNF en R (candidate_keys en R))
      else (''BCNF'', []))"
  by (simp add: judge_NF_def Let_def)

lemma contains_key_iff:
  "contains_key keys sub_schemas \<longleftrightarrow> (\<exists>s \<in> set sub_schemas. \<exists>key \<in> set keys. key \<subseteq> s)"
  by (induction sub_schemas) (auto simp: list_ex_iff)

text \<open>
  Claim C7. \<open>is_lossless_decomposition\<close> returns true exactly when some fragment is a
  superset of some set in the list returned by \<open>candidate_keys\<close>.
\<close>

theorem lossless_iff_fragment_holds_key:
  "is_lossless_decomposition en R sub_schemas \<longleftrightarrow>
     (\<exists>s \<in> set sub_schemas. \<exists>key \<in> set (candidate_keys en R). key \<subseteq> s)"
  by (simp add: is_lossless_decomposition_def contains_key_iff)

theorem lossless_iff_fragment_holds_key_witness:
  "is_lossless_decomposition sorted_list_of_set
     \<lparr>attributes = {''A'', ''B'', ''C'', ''D''},
      fd_set = \<lparr>fds = [\<lparr>lhs = {''A''}, rhs = {''B''}\<rparr>, \<lparr>lhs = {''B''}, rhs = {''C''}\<rparr>]\<rparr>\<rparr>
     [{''A'', ''B''}, {''A'', ''C'', ''D''}]
   \<and> (\<exists>s \<in> set [{''A'', ''B''}, {''A'', ''C'', ''D''}].
        \<exists>key \<in> set (candidate_keys sorted_list_of_set
           \<lparr>attributes = {''A'', ''B'', ''C'', ''D''},
            fd_set = \<lparr>fds = [\<lparr>lhs = {''A''}, rhs = {''B''}\<rparr>, \<lparr>lhs = {''B''}, rhs = {''C''}\<rparr>]\<rparr>\<rparr>).
          key \<subseteq> s)"
proof -
  have e: "is_lossless_decomposition sorted_list_of_set
     \<lparr>attributes = {''A'', ''B'', ''C'', ''D''},
      fd_set = \<lparr>fds = [\<lparr>lhs = {''A''}, rhs = {''B''}\<rparr>, \<lparr>lhs = {''B''}, rhs = {''C''}\<rparr>]\<rparr>\<rparr>
     [{''A'', ''B''}, {''A'', ''C'', ''D''}]"
    by code_simp
  with lossless_iff_fragment_holds_key [of sorted_list_of_set
     "\<lparr>attributes = {''A'', ''B'', ''C'', ''D''},
      fd_set = \<lparr>fds = [\<lparr>lhs = {''A''}, rhs = {''B''}\<rparr>, \<lparr>lhs = {''B''}, rhs = {''C''}\<rparr>]\<rparr>\<rparr>"
     "[{''A'', ''B''}, {''A'', ''C'', ''D''}]"]
  show ?thesis by blast
qed

section \<open>Dependencies with an empty right side\<close>

lemma concat_map_filter_empty:
  "(\<And>x. \<not> P x \<Longrightarrow> f x = []) \<Longrightarrow> concat (map f (filter P xs)) = concat (map f xs)"
  by (induction xs) auto

lemma en_empty: "set_order en \<Longrightarrow> en {} = []"
proof -
  assume "set_order en"
  then have "set (en {}) = {}" unfolding set_order_def by blast
  then show ?thesis by simp
qed

text \<open>
  Claim C10. A dependency with an empty right side vanishes under \<open>singleton_rhs\<close>: the
  result is the same with all such dependencies removed, so for any list of keys the
  three judges report the same violations with and without them.
\<close>

theorem empty_rhs_vanishes:
  assumes "set_order en"
  shows "singleton_rhs en F = singleton_rhs en \<lparr>fds = filter (\<lambda>fd. rhs fd \<noteq> {}) (fds F)\<rparr>
       \<and> judge_2NF en R keys
           = judge_2NF en (R\<lparr>fd_set := \<lparr>fds = filter (\<lambda>fd. rhs fd \<noteq> {}) (fds (fd_set R))\<rparr>\<rparr>) keys
       \<and> judge_3NF en R keys
           = judge_3NF en (R\<lparr>fd_set := \<lparr>fds = filter (\<lambda>fd. rhs fd \<noteq> {}) (fds (fd_set R))\<rparr>\<rparr>) keys
       \<and> judge_BCNF en R keys
           = judge_BCNF en (R\<lparr>fd_set := \<lparr>fds = filter (\<lambda>fd. rhs fd \<noteq> {}) (fds (fd_set R))\<rparr>\<rparr>) keys"
proof -
  have s: "singleton_rhs en G = singleton_rhs en \<lparr>fds = filter (\<lambda>fd. rhs fd \<noteq> {}) (fds G)\<rparr>" for G
  proof -
    have "concat (map (\<lambda>fd. map (\<lambda>a. \<lparr>lhs = lhs fd, rhs = frozenset_str a\<rparr>) (en (rhs fd)))
                      (filter (\<lambda>fd. rhs fd \<noteq> {}) (fds G)))
        = concat (map (\<lambda>fd. map (\<lambda>a. \<lparr>lhs = lhs fd, rhs = frozenset_str a\<rparr>) (en (rhs fd))) (fds G))"
      by (rule concat_map_filter_empty) (simp add: en_empty [OF assms])
    then show ?thesis by (simp add: singleton_rhs_def)
  qed
  show ?thesis
    using s [of F] s [of "fd_set R"] by (simp add: judge_2NF_def judge_3NF_def judge_BCNF_def)
qed

theorem empty_rhs_vanishes_witness:
  "set_order sorted_list_of_set
   \<and> singleton_rhs sorted_list_of_set \<lparr>fds = [\<lparr>lhs = {''A''}, rhs = {}\<rparr>, \<lparr>lhs = {''A''}, rhs = {''B''}\<rparr>]\<rparr>
       = \<lparr>fds = [\<lparr>lhs = {''A''}, rhs = {''B''}\<rparr>]\<rparr>
   \<and> judge_BCNF sorted_list_of_set
         \<lparr>attributes = {''A'', ''B''},
          fd_set = \<lparr>fds = [\<lparr>lhs = {''B''}, rhs = {}\<rparr>, \<lparr>lhs = {''A''}, rhs = {''B''}\<rparr>]\<rparr>\<rparr> [{''A''}]
       = []"
proof -
  have o: "set_order sorted_list_of_set" by (simp add: set_order_def)
  have a: "singleton_rhs sorted_list_of_set \<lparr>fds = [\<lparr>lhs = {''A''}, rhs = {''B''}\<rparr>]\<rparr>
       = \<lparr>fds = [\<lparr>lhs = {''A''}, rhs = {''B''}\<rparr>]\<rparr>"
    by code_simp
  have b: "judge_BCNF sorted_list_of_set
         \<lparr>attributes = {''A'', ''B''}, fd_set = \<lparr>fds = [\<lparr>lhs = {''A''}, rhs = {''B''}\<rparr>]\<rparr>\<rparr> [{''A''}] = []"
    by code_simp
  from empty_rhs_vanishes [OF o,
      of "\<lparr>fds = [\<lparr>lhs = {''A''}, rhs = {}\<rparr>, \<lparr>lhs = {''A''}, rhs = {''B''}\<rparr>]\<rparr>"
         "\<lparr>attributes = {''A'', ''B''},
          fd_set = \<lparr>fds = [\<lparr>lhs = {''B''}, rhs = {}\<rparr>, \<lparr>lhs = {''A''}, rhs = {''B''}\<rparr>]\<rparr>\<rparr>" "[{''A''}]"]
    o a b show ?thesis by simp
qed

section \<open>Sharing of the default list\<close>

text \<open>
  Claim C9. Two dependency sets built as \<open>FDSet()\<close> never share their underlying list.
  On the code they do: both hold the one list allocated for the default argument, and a
  dependency appended to the first is in the second.
\<close>

theorem FDSet_default_shared:
  "(let s0 = define_FDSet empty_store;
        (a, s1) = FDSet_init None s0;
        (b, s2) = FDSet_init None s1;
        s3 = fds_append a \<lparr>lhs = {''A''}, rhs = {''B''}\<rparr> s2
    in fds_ref a = fds_ref b \<and> fds_of b s2 = Some []
       \<and> fds_of b s3 = Some [\<lparr>lhs = {''A''}, rhs = {''B''}\<rparr>])"
  by (simp add: define_FDSet_def empty_store_def new_list_def FDSet_init_def fds_append_def fds_of_def)

section \<open>Candidate keys\<close>

subsection \<open>The set of keys returned\<close>

lemma foldl_union: "foldl (\<lambda>acc x. acc \<union> f x) A xs = A \<union> \<Union> (f ` set xs)"
  by (induction xs arbitrary: A) auto

lemma all_left_eq: "all_left F = \<Union> (lhs ` set (fds F))"
  by (simp add: all_left_def foldl_union)

lemma all_right_eq: "all_right F = \<Union> (rhs ` set (fds F))"
  by (simp add: all_right_def foldl_union)

lemma prime_attrs_eq: "prime_attrs keys = \<Union> (set keys)"
  by (simp add: prime_attrs_def foldl_union)

lemma is_minimal_iff:
  "is_minimal F U c xs \<longleftrightarrow> (\<forall>a \<in> set xs. closure F (c - {a}) \<noteq> U)"
  by (induction xs) auto

lemma in_check_subset:
  "K \<in> set (check_subset en F U left isol sub) \<longleftrightarrow>
     K = left \<union> set sub \<union> isol \<and> closure F K = U \<and> is_minimal F U K (en K)"
  by (auto simp: check_subset_def Let_def)

lemma combinations_length: "sub \<in> set (combinations xs r) \<Longrightarrow> length sub = r"
proof (induction xs r arbitrary: sub rule: combinations.induct)
  case (3 x xs r)
  from "3.prems" consider s where "sub = x # s" "s \<in> set (combinations xs r)"
    | "sub \<in> set (combinations xs (Suc r))" by auto
  then show ?case
  proof cases
    case 1
    with "3.IH"(1) [of s] show ?thesis by simp
  next
    case 2
    with "3.IH"(2) [of sub] show ?thesis by simp
  qed
qed simp_all

lemma combinations_subset: "sub \<in> set (combinations xs r) \<Longrightarrow> set sub \<subseteq> set xs"
proof (induction xs r arbitrary: sub rule: combinations.induct)
  case (3 x xs r)
  from "3.prems" consider s where "sub = x # s" "s \<in> set (combinations xs r)"
    | "sub \<in> set (combinations xs (Suc r))" by auto
  then show ?case
  proof cases
    case 1
    with "3.IH"(1) [of s] show ?thesis by auto
  next
    case 2
    with "3.IH"(2) [of sub] show ?thesis by auto
  qed
qed simp_all

lemma combinations_distinct:
  "distinct xs \<Longrightarrow> sub \<in> set (combinations xs r) \<Longrightarrow> distinct sub"
proof (induction xs r arbitrary: sub rule: combinations.induct)
  case (3 x xs r)
  from "3.prems"(1) have d: "distinct xs" and nx: "x \<notin> set xs" by simp_all
  from "3.prems"(2) consider s where "sub = x # s" "s \<in> set (combinations xs r)"
    | "sub \<in> set (combinations xs (Suc r))" by auto
  then show ?case
  proof cases
    case 1
    from combinations_subset [OF 1(2)] nx have "x \<notin> set s" by blast
    with "3.IH"(1) [OF d 1(2)] 1(1) show ?thesis by simp
  next
    case 2
    with "3.IH"(2) [OF d] show ?thesis by simp
  qed
qed simp_all

lemma in_concat_map: "x \<in> set (concat (map f xs)) \<longleftrightarrow> (\<exists>y \<in> set xs. x \<in> set (f y))"
  by auto

lemma combinations_Cons_sub: "set (combinations xs r) \<subseteq> set (combinations (x # xs) r)"
  by (cases r) auto

lemma combinations_complete:
  "distinct xs \<Longrightarrow> S \<subseteq> set xs \<Longrightarrow> \<exists>sub \<in> set (combinations xs (card S)). set sub = S"
proof (induction xs arbitrary: S)
  case Nil
  then show ?case by simp
next
  case (Cons x xs)
  have fin: "finite S" using Cons.prems(2) by (rule finite_subset) simp
  show ?case
  proof (cases "x \<in> S")
    case True
    from Cons.prems have "S - {x} \<subseteq> set xs" "distinct xs" by auto
    from Cons.IH [OF this(2,1)] obtain sub
      where sub: "sub \<in> set (combinations xs (card (S - {x})))" "set sub = S - {x}" by blast
    from fin True have c: "card S = Suc (card (S - {x}))" by (rule card.remove)
    from sub have "x # sub \<in> set (combinations (x # xs) (card S))" unfolding c by simp
    moreover from sub(2) True have "set (x # sub) = S" by auto
    ultimately show ?thesis by blast
  next
    case False
    with Cons.prems have "S \<subseteq> set xs" "distinct xs" by auto
    from Cons.IH [OF this(2,1)] obtain sub
      where "sub \<in> set (combinations xs (card S))" "set sub = S" by blast
    with combinations_Cons_sub [of xs "card S" x] show ?thesis by blast
  qed
qed

lemma keys_enum_set:
  assumes en: "set_order en" and fb: "finite both" and fl: "finite left" and fi: "finite isol"
  shows "set (concat (map (\<lambda>r. concat (map (check_subset en F U left isol) (combinations (en both) r)))
                          [0 ..< card both + 1]))
       = {K. \<exists>S. S \<subseteq> both \<and> K = left \<union> S \<union> isol \<and> closure F K = U
                \<and> (\<forall>a \<in> K. closure F (K - {a}) \<noteq> U)}"
    (is "?L = ?R")
proof -
  from en fb have eb: "set (en both) = both" "distinct (en both)" by (simp_all add: set_order_def)
  have enK: "set (en (left \<union> S \<union> isol)) = left \<union> S \<union> isol" if "S \<subseteq> both" for S
  proof -
    from that fb have "finite S" by (rule finite_subset)
    with fl fi have "finite (left \<union> S \<union> isol)" by simp
    with en show ?thesis by (simp add: set_order_def)
  qed
  show ?thesis
  proof (intro set_eqI iffI)
    fix K assume "K \<in> ?L"
    then obtain r sub where sub: "sub \<in> set (combinations (en both) r)"
      and K: "K \<in> set (check_subset en F U left isol sub)"
      unfolding in_concat_map by blast
    from combinations_subset [OF sub] eb have s: "set sub \<subseteq> both" by simp
    from K have k: "K = left \<union> set sub \<union> isol" "closure F K = U" "is_minimal F U K (en K)"
      unfolding in_check_subset by blast+
    from k(3) have "\<forall>a \<in> set (en K). closure F (K - {a}) \<noteq> U"
      by (simp only: is_minimal_iff)
    with enK [OF s] k(1) have "\<forall>a \<in> K. closure F (K - {a}) \<noteq> U" by simp
    with s k show "K \<in> ?R" by blast
  next
    fix K assume "K \<in> ?R"
    then obtain S where S: "S \<subseteq> both" "K = left \<union> S \<union> isol" "closure F K = U"
      "\<forall>a \<in> K. closure F (K - {a}) \<noteq> U" by blast
    from S(1) eb have "S \<subseteq> set (en both)" by simp
    from combinations_complete [OF eb(2) this] obtain sub
      where sub: "sub \<in> set (combinations (en both) (card S))" "set sub = S" by blast
    from S(1) fb have "card S \<le> card both" by (simp add: card_mono)
    then have r: "card S \<in> set [0 ..< card both + 1]" by auto
    from enK [OF S(1)] S(2) have "set (en K) = K" by simp
    with S(4) have "is_minimal F U K (en K)" by (simp only: is_minimal_iff)
    with S(2,3) sub(2) have "K \<in> set (check_subset en F U left isol sub)"
      unfolding in_check_subset by blast
    with sub(1) r show "K \<in> ?L" unfolding in_concat_map by blast
  qed
qed

lemma finite_all_left:
  "\<forall>fd \<in> set (fds F). finite (lhs fd) \<Longrightarrow> finite (all_left F)"
  by (simp add: all_left_eq)

lemma candidate_keys_set:
  assumes en: "set_order en" and fu: "finite (attributes R)"
    and fl: "\<forall>fd \<in> set (fds (fd_set R)). finite (lhs fd)"
  shows "set (candidate_keys en R)
       = {K. \<exists>S. S \<subseteq> all_left (fd_set R) \<inter> all_right (fd_set R)
                \<and> K = (all_left (fd_set R) - all_right (fd_set R)) \<union> S
                       \<union> (attributes R - (all_left (fd_set R) \<union> all_right (fd_set R)))
                \<and> closure (fd_set R) K = attributes R
                \<and> (\<forall>a \<in> K. closure (fd_set R) (K - {a}) \<noteq> attributes R)}"
proof -
  from finite_all_left [OF fl] have f: "finite (all_left (fd_set R))" .
  show ?thesis
    unfolding candidate_keys_def Let_def
  proof (rule keys_enum_set [OF en])
    show "finite (all_left (fd_set R) \<inter> all_right (fd_set R))" using f by simp
    show "finite (all_left (fd_set R) - all_right (fd_set R))" using f by simp
    show "finite (attributes R - (all_left (fd_set R) \<union> all_right (fd_set R)))" using fu by simp
  qed
qed

subsection \<open>No key is returned twice\<close>

lemma combinations_distinct_sets:
  "distinct xs \<Longrightarrow> distinct (map set (combinations xs r))"
proof (induction xs r rule: combinations.induct)
  case (3 x xs r)
  from "3.prems" have d: "distinct xs" and nx: "x \<notin> set xs" by simp_all
  let ?A = "map set (combinations xs r)" and ?B = "map set (combinations xs (Suc r))"
  have nA: "\<And>S. S \<in> set ?A \<Longrightarrow> x \<notin> S" using combinations_subset [of _ xs r] nx by auto
  have nB: "\<And>S. S \<in> set ?B \<Longrightarrow> x \<notin> S" using combinations_subset [of _ xs "Suc r"] nx by auto
  have "inj_on (insert x) (set ?A)"
  proof (rule inj_onI)
    fix S T assume "S \<in> set ?A" "T \<in> set ?A" "insert x S = insert x T"
    with nA [of S] nA [of T] show "S = T" by (simp add: insert_ident)
  qed
  then have dA: "distinct (map (insert x) ?A)"
    unfolding distinct_map [of "insert x" ?A] using "3.IH"(1) [OF d] by blast
  have dj: "set (map (insert x) ?A) \<inter> set ?B = {}" using nB by auto
  have "distinct (map (insert x) ?A @ ?B)"
    unfolding distinct_append using dA "3.IH"(2) [OF d] dj by blast
  moreover have "map set (combinations (x # xs) (Suc r)) = map (insert x) ?A @ ?B" by simp
  ultimately show ?case by (simp only:)
qed simp_all

lemma all_combinations_distinct_sets:
  "distinct xs \<Longrightarrow> distinct (map set (concat (map (combinations xs) [0 ..< n])))"
proof (induction n)
  case 0
  then show ?case by simp
next
  case (Suc n)
  let ?A = "map set (concat (map (combinations xs) [0 ..< n]))"
  let ?B = "map set (combinations xs n)"
  have cA: "\<And>S. S \<in> set ?A \<Longrightarrow> card S < n"
  proof -
    fix S assume "S \<in> set ?A"
    then obtain r sub where r: "r < n" and sub: "sub \<in> set (combinations xs r)" and S: "S = set sub"
      by auto
    from combinations_distinct [OF Suc.prems sub] combinations_length [OF sub] S
    have "card S = r" by (simp add: distinct_card)
    with r show "card S < n" by simp
  qed
  have cB: "\<And>S. S \<in> set ?B \<Longrightarrow> card S = n"
  proof -
    fix S assume "S \<in> set ?B"
    then obtain sub where sub: "sub \<in> set (combinations xs n)" and S: "S = set sub" by auto
    from combinations_distinct [OF Suc.prems sub] combinations_length [OF sub] S
    show "card S = n" by (simp add: distinct_card)
  qed
  have dj: "set ?A \<inter> set ?B = {}"
  proof (rule ccontr)
    assume "set ?A \<inter> set ?B \<noteq> {}"
    then obtain S where "S \<in> set ?A" "S \<in> set ?B" by blast
    with cA [of S] cB [of S] show False by simp
  qed
  have "distinct (?A @ ?B)"
    unfolding distinct_append
    using Suc.IH [OF Suc.prems] combinations_distinct_sets [OF Suc.prems, of n] dj by blast
  moreover have "map set (concat (map (combinations xs) [0 ..< Suc n])) = ?A @ ?B" by simp
  ultimately show ?case by (simp only:)
qed

lemma concat_concat_map:
  "concat (map (\<lambda>r. concat (map g (c r))) rs) = concat (map g (concat (map c rs)))"
  by (induction rs) auto

lemma check_subset_filter:
  "concat (map (check_subset en F U left isol) subs)
   = filter (\<lambda>K. closure F K = U \<and> is_minimal F U K (en K))
       (map (\<lambda>S. left \<union> S \<union> isol) (map set subs))"
  by (induction subs) (auto simp: check_subset_def Let_def)

lemma keys_enum_distinct:
  assumes en: "set_order en" and fb: "finite both"
    and dj: "both \<inter> (left \<union> isol) = {}"
  shows "distinct (concat (map (\<lambda>r. concat (map (check_subset en F U left isol) (combinations (en both) r)))
                          [0 ..< card both + 1]))"
proof -
  from en fb have eb: "set (en both) = both" "distinct (en both)" by (simp_all add: set_order_def)
  let ?subs = "concat (map (combinations (en both)) [0 ..< card both + 1])"
  have d: "distinct (map set ?subs)" by (rule all_combinations_distinct_sets [OF eb(2)])
  have sb: "\<And>S. S \<in> set (map set ?subs) \<Longrightarrow> S \<subseteq> both"
    using combinations_subset [of _ "en both"] eb(1) by auto
  have "inj_on (\<lambda>S. left \<union> S \<union> isol) (set (map set ?subs))"
  proof (rule inj_onI)
    fix S T assume "S \<in> set (map set ?subs)" "T \<in> set (map set ?subs)"
      "left \<union> S \<union> isol = left \<union> T \<union> isol"
    with sb [of S] sb [of T] dj show "S = T" by blast
  qed
  then have "distinct (map (\<lambda>S. left \<union> S \<union> isol) (map set ?subs))"
    unfolding distinct_map [of "\<lambda>S. left \<union> S \<union> isol" "map set ?subs"] using d by blast
  then have "distinct (filter (\<lambda>K. closure F K = U \<and> is_minimal F U K (en K))
                  (map (\<lambda>S. left \<union> S \<union> isol) (map set ?subs)))"
    by (rule distinct_filter)
  then have "distinct (concat (map (check_subset en F U left isol) ?subs))"
    by (simp only: check_subset_filter)
  then show ?thesis by (simp only: concat_concat_map)
qed

lemma candidate_keys_distinct:
  assumes en: "set_order en" and fl: "\<forall>fd \<in> set (fds (fd_set R)). finite (lhs fd)"
  shows "distinct (candidate_keys en R)"
  unfolding candidate_keys_def Let_def
proof (rule keys_enum_distinct [OF en])
  show "finite (all_left (fd_set R) \<inter> all_right (fd_set R))" using finite_all_left [OF fl] by simp
  show "all_left (fd_set R) \<inter> all_right (fd_set R) \<inter>
        (all_left (fd_set R) - all_right (fd_set R) \<union> (attributes R - (all_left (fd_set R) \<union> all_right (fd_set R)))) = {}"
    by blast
qed

subsection \<open>Every key is found\<close>

lemma closure_within:
  assumes "X \<subseteq> T" and "\<forall>fd \<in> set (fds F). rhs fd \<subseteq> T"
  shows "closure F X \<subseteq> T"
  by (rule closure_least [OF assms(1)]) (use assms(2) in \<open>simp add: closed_under_def\<close>)

lemma closure_adds_right_sides: "closure F X \<subseteq> X \<union> all_right F"
proof (rule closure_least)
  show "X \<subseteq> X \<union> all_right F" by simp
  show "closed_under (fds F) (X \<union> all_right F)"
    unfolding closed_under_def all_right_eq by blast
qed

lemma closure_drop_unused:
  assumes "a \<notin> all_left F"
  shows "closure F K \<subseteq> insert a (closure F (K - {a}))"
proof (rule closure_least)
  show "K \<subseteq> insert a (closure F (K - {a}))" using closure_extensive [of "K - {a}" F] by blast
  show "closed_under (fds F) (insert a (closure F (K - {a})))"
    unfolding closed_under_def
  proof (intro ballI impI)
    fix fd assume fd: "fd \<in> set (fds F)" and l: "lhs fd \<subseteq> insert a (closure F (K - {a}))"
    from fd assms have "a \<notin> lhs fd" unfolding all_left_eq by blast
    with l have "lhs fd \<subseteq> closure F (K - {a})" by blast
    with closure_closed [of F "K - {a}"] fd have "rhs fd \<subseteq> closure F (K - {a})"
      unfolding closed_under_def by blast
    then show "rhs fd \<subseteq> insert a (closure F (K - {a}))" by blast
  qed
qed

lemma right_only_not_in_key:
  assumes wf: "\<forall>fd \<in> set (fds F). lhs fd \<subseteq> U \<and> rhs fd \<subseteq> U"
    and KU: "K \<subseteq> U" and cl: "closure F K = U"
    and a: "a \<in> K" "a \<in> all_right F" "a \<notin> all_left F"
  shows "closure F (K - {a}) = U"
proof
  show "closure F (K - {a}) \<subseteq> U"
    by (rule closure_within) (use KU wf in auto)
  from closure_drop_unused [OF a(3), of K] cl have U: "U \<subseteq> insert a (closure F (K - {a}))" by simp
  from a(2) obtain fd where fd: "fd \<in> set (fds F)" "a \<in> rhs fd" unfolding all_right_eq by blast
  from fd(1) a(3) have "a \<notin> lhs fd" unfolding all_left_eq by blast
  moreover from wf fd(1) have "lhs fd \<subseteq> U" by blast
  ultimately have "lhs fd \<subseteq> closure F (K - {a})" using U by blast
  with closure_closed [of F "K - {a}"] fd(1) have "rhs fd \<subseteq> closure F (K - {a})"
    unfolding closed_under_def by blast
  with fd(2) have "a \<in> closure F (K - {a})" by blast
  with U show "U \<subseteq> closure F (K - {a})" by blast
qed

lemma candidate_keys_complete:
  assumes en: "set_order en" and fu: "finite (attributes R)"
    and wf: "\<forall>fd \<in> set (fds (fd_set R)). lhs fd \<subseteq> attributes R \<and> rhs fd \<subseteq> attributes R"
    and KU: "K \<subseteq> attributes R" and cl: "closure (fd_set R) K = attributes R"
    and mn: "\<forall>K'. K' \<subset> K \<longrightarrow> closure (fd_set R) K' \<noteq> attributes R"
  shows "K \<in> set (candidate_keys en R)"
proof -
  let ?F = "fd_set R" and ?U = "attributes R"
  let ?L = "all_left ?F" and ?Rt = "all_right ?F"
  have fl: "\<forall>fd \<in> set (fds ?F). finite (lhs fd)"
    using wf fu by (blast intro: finite_subset)
  have LU: "?L \<subseteq> ?U" using wf unfolding all_left_eq by blast
  have no_right_only: "a \<in> ?L" if "a \<in> K" "a \<in> ?Rt" for a
  proof (rule ccontr)
    assume "a \<notin> ?L"
    from right_only_not_in_key [OF wf KU cl that this] have "closure ?F (K - {a}) = ?U" .
    moreover from that(1) have "K - {a} \<subset> K" by blast
    ultimately show False using mn by blast
  qed
  have needs: "b \<in> K" if "b \<in> ?U" "b \<notin> ?Rt" for b
    using closure_adds_right_sides [of ?F K] cl that by blast
  let ?S = "K \<inter> (?L \<inter> ?Rt)"
  have "K = (?L - ?Rt) \<union> ?S \<union> (?U - (?L \<union> ?Rt))"
  proof
    show "K \<subseteq> (?L - ?Rt) \<union> ?S \<union> (?U - (?L \<union> ?Rt))"
      using KU no_right_only by blast
    show "(?L - ?Rt) \<union> ?S \<union> (?U - (?L \<union> ?Rt)) \<subseteq> K"
      using needs LU by blast
  qed
  moreover have "?S \<subseteq> ?L \<inter> ?Rt" by blast
  moreover have "\<forall>a \<in> K. closure ?F (K - {a}) \<noteq> ?U"
  proof
    fix a assume "a \<in> K"
    then have "K - {a} \<subset> K" by blast
    with mn show "closure ?F (K - {a}) \<noteq> ?U" by blast
  qed
  ultimately show ?thesis
    unfolding candidate_keys_set [OF en fu fl] using cl by blast
qed

lemma scenario_B_finite:
  "finite (attributes scenario_B)"
  "\<forall>fd \<in> set (fds (fd_set scenario_B)). finite (lhs fd)"
  "\<forall>fd \<in> set (fds (fd_set scenario_B)). lhs fd \<subseteq> attributes scenario_B \<and> rhs fd \<subseteq> attributes scenario_B"
  by (simp_all add: scenario_B_def)

lemma scenario_B_keys_sorted:
  "candidate_keys sorted_list_of_set scenario_B = [{''A'', ''C''}, {''B'', ''C''}, {''D'', ''C''}]"
  unfolding scenario_B_def by code_simp

text \<open>
  Claim C3. \<open>candidate_keys\<close> is sound: every set \<open>K\<close> in the returned list has the
  whole attribute set as its closure, and removing any one attribute of \<open>K\<close> loses that.
\<close>

theorem candidate_keys_sound:
  assumes "set_order en" and "finite (attributes R)"
    and "\<forall>fd \<in> set (fds (fd_set R)). finite (lhs fd)"
  shows "\<forall>K \<in> set (candidate_keys en R).
           closure (fd_set R) K = attributes R
           \<and> (\<forall>a \<in> K. closure (fd_set R) (K - {a}) \<noteq> attributes R)"
  unfolding candidate_keys_set [OF assms] by blast

theorem candidate_keys_sound_witness:
  "set_order sorted_list_of_set \<and> finite (attributes scenario_B)
   \<and> {''A'', ''C''} \<in> set (candidate_keys sorted_list_of_set scenario_B)
   \<and> closure (fd_set scenario_B) {''A'', ''C''} = attributes scenario_B
   \<and> closure (fd_set scenario_B) ({''A'', ''C''} - {''A''}) \<noteq> attributes scenario_B
   \<and> closure (fd_set scenario_B) ({''A'', ''C''} - {''C''}) \<noteq> attributes scenario_B"
proof -
  have m: "{''A'', ''C''} \<in> set (candidate_keys sorted_list_of_set scenario_B)"
    by (simp add: scenario_B_keys_sorted)
  from candidate_keys_sound [OF set_order_sorted scenario_B_finite(1,2)] m
  have "closure (fd_set scenario_B) {''A'', ''C''} = attributes scenario_B
     \<and> (\<forall>a \<in> {''A'', ''C''}. closure (fd_set scenario_B) ({''A'', ''C''} - {a}) \<noteq> attributes scenario_B)"
    by blast
  with m set_order_sorted scenario_B_finite(1) show ?thesis by blast
qed

text \<open>
  Claim C2. \<open>candidate_keys\<close> is complete and free of duplicates: when the dependencies
  mention attributes of the schema only, every minimal subset of the attributes whose
  closure is the whole attribute set is in the returned list, and the list has no two
  equal entries. Enumerating only the attributes that occur on both sides loses no key.
\<close>

theorem candidate_keys_complete_distinct:
  assumes "set_order en" and "finite (attributes R)"
    and "\<forall>fd \<in> set (fds (fd_set R)). lhs fd \<subseteq> attributes R \<and> rhs fd \<subseteq> attributes R"
  shows "(\<forall>K. K \<subseteq> attributes R \<and> closure (fd_set R) K = attributes R
              \<and> (\<forall>K'. K' \<subset> K \<longrightarrow> closure (fd_set R) K' \<noteq> attributes R)
            \<longrightarrow> K \<in> set (candidate_keys en R))
       \<and> distinct (candidate_keys en R)"
proof -
  have fl: "\<forall>fd \<in> set (fds (fd_set R)). finite (lhs fd)"
    using assms(2,3) by (blast intro: finite_subset)
  show ?thesis
    using candidate_keys_complete [OF assms] candidate_keys_distinct [OF assms(1) fl] by blast
qed

lemma scenario_B_closures:
  "closure (fd_set scenario_B) {''A'', ''C''} = attributes scenario_B"
  "''C'' \<notin> closure (fd_set scenario_B) {''A''}"
  "''A'' \<notin> closure (fd_set scenario_B) {''C''}"
  unfolding scenario_B_def by code_simp+

theorem candidate_keys_complete_distinct_witness:
  "set_order sorted_list_of_set \<and> finite (attributes scenario_B)
   \<and> {''A'', ''C''} \<subseteq> attributes scenario_B
   \<and> closure (fd_set scenario_B) {''A'', ''C''} = attributes scenario_B
   \<and> {''A'', ''C''} \<in> set (candidate_keys sorted_list_of_set scenario_B)
   \<and> distinct (candidate_keys sorted_list_of_set scenario_B)"
proof -
  have sub: "{''A'', ''C''} \<subseteq> attributes scenario_B" by (simp add: scenario_B_def)
  have mn: "\<forall>K'. K' \<subset> {''A'', ''C''} \<longrightarrow> closure (fd_set scenario_B) K' \<noteq> attributes scenario_B"
  proof (intro allI impI)
    fix K' :: "attr set" assume "K' \<subset> {''A'', ''C''}"
    then have "K' \<subseteq> {''A''} \<or> K' \<subseteq> {''C''}" by blast
    then show "closure (fd_set scenario_B) K' \<noteq> attributes scenario_B"
    proof
      assume "K' \<subseteq> {''A''}"
      from closure_mono [OF this] scenario_B_closures(2)
      have "''C'' \<notin> closure (fd_set scenario_B) K'" by blast
      then show ?thesis by (auto simp: scenario_B_def)
    next
      assume "K' \<subseteq> {''C''}"
      from closure_mono [OF this] scenario_B_closures(3)
      have "''A'' \<notin> closure (fd_set scenario_B) K'" by blast
      then show ?thesis by (auto simp: scenario_B_def)
    qed
  qed
  from candidate_keys_complete_distinct [OF set_order_sorted scenario_B_finite(1,3)]
    sub scenario_B_closures(1) mn
  have "{''A'', ''C''} \<in> set (candidate_keys sorted_list_of_set scenario_B)
      \<and> distinct (candidate_keys sorted_list_of_set scenario_B)" by blast
  with set_order_sorted scenario_B_finite(1) sub scenario_B_closures(1) show ?thesis by blast
qed

section \<open>The normal form of scenario B\<close>

lemma scenario_B_keys:
  assumes "set_order en"
  shows "set (candidate_keys en scenario_B) = {{''A'', ''C''}, {''B'', ''C''}, {''D'', ''C''}}"
proof -
  have "set (candidate_keys en scenario_B) = set (candidate_keys sorted_list_of_set scenario_B)"
    unfolding candidate_keys_set [OF assms scenario_B_finite(1,2)]
      candidate_keys_set [OF set_order_sorted scenario_B_finite(1,2)] ..
  then show ?thesis by (simp add: scenario_B_keys_sorted)
qed

lemma scenario_B_atomic:
  assumes "set_order en"
  shows "singleton_rhs en (fd_set scenario_B) = fd_set scenario_B"
  by (simp add: scenario_B_def singleton_rhs_def en_singleton [OF assms] frozenset_str_def)

lemma partial_dependency_prime:
  "rhs fd \<subseteq> prime \<Longrightarrow> partial_dependency fd prime keys = []"
  by (induction keys) auto

lemma concat_map_Nil: "(\<And>x. x \<in> set xs \<Longrightarrow> f x = []) \<Longrightarrow> concat (map f xs) = []"
  by (induction xs) auto

lemma judge_2NF_all_prime:
  assumes "\<forall>fd \<in> set (fds (singleton_rhs en (fd_set R))). rhs fd \<subseteq> \<Union> (set keys)"
  shows "judge_2NF en R keys = []"
  unfolding judge_2NF_def Let_def prime_attrs_eq
  by (rule concat_map_Nil) (use assms in \<open>simp add: partial_dependency_prime\<close>)

lemma judge_3NF_all_prime:
  assumes "\<forall>fd \<in> set (fds (singleton_rhs en (fd_set R))). rhs fd \<subseteq> \<Union> (set keys)"
  shows "judge_3NF en R keys = []"
  unfolding judge_3NF_def Let_def prime_attrs_eq
  by (rule concat_map_Nil) (use assms in simp)

lemma judge_BCNF_keys_set:
  "set keys = set keys' \<Longrightarrow> judge_BCNF en R keys = judge_BCNF en R keys'"
  by (simp add: judge_BCNF_def list_all_iff)

lemma scenario_B_BCNF_sorted:
  "judge_BCNF sorted_list_of_set scenario_B [{''A'', ''C''}, {''B'', ''C''}, {''D'', ''C''}]
   = [''Violation: A -> B violates BCNF'', ''Violation: D -> A violates BCNF'']"
  unfolding scenario_B_def by code_simp

text \<open>
  Claim C6. For the schema with attributes \<open>{A,B,C,D}\<close> and dependencies \<open>A -> B\<close>,
  \<open>BC -> D\<close>, \<open>D -> A\<close>, \<open>judge_NF\<close> returns level \<open>3NF\<close> with at least one violation:
  whatever the iteration order, the keys are \<open>AC\<close>, \<open>BC\<close> and \<open>CD\<close>, every attribute is
  prime, and the BCNF judge reports \<open>A -> B\<close> and \<open>D -> A\<close>.
\<close>

theorem scenario_B_level:
  assumes "set_order en"
  shows "judge_NF en scenario_B
         = (''3NF'', [''Violation: A -> B violates BCNF'', ''Violation: D -> A violates BCNF''])"
proof -
  let ?keys = "candidate_keys en scenario_B"
  note ks = scenario_B_keys [OF assms]
  have prime: "\<forall>fd \<in> set (fds (singleton_rhs en (fd_set scenario_B))). rhs fd \<subseteq> \<Union> (set ?keys)"
    unfolding scenario_B_atomic [OF assms] ks by (simp add: scenario_B_def)
  have v2: "judge_2NF en scenario_B ?keys = []" by (rule judge_2NF_all_prime [OF prime])
  have v3: "judge_3NF en scenario_B ?keys = []" by (rule judge_3NF_all_prime [OF prime])
  have "judge_BCNF en scenario_B ?keys
        = judge_BCNF en scenario_B [{''A'', ''C''}, {''B'', ''C''}, {''D'', ''C''}]"
    by (rule judge_BCNF_keys_set) (simp add: ks)
  also have "\<dots> = judge_BCNF sorted_list_of_set scenario_B [{''A'', ''C''}, {''B'', ''C''}, {''D'', ''C''}]"
    by (simp add: judge_BCNF_def scenario_B_atomic [OF assms] scenario_B_atomic [OF set_order_sorted])
  finally have vB: "judge_BCNF en scenario_B ?keys
        = [''Violation: A -> B violates BCNF'', ''Violation: D -> A violates BCNF'']"
    by (simp only: scenario_B_BCNF_sorted)
  show ?thesis by (simp add: judge_NF_def Let_def v2 v3 vB)
qed

theorem scenario_B_level_witness:
  "set_order sorted_list_of_set \<and>
   judge_NF sorted_list_of_set scenario_B
     = (''3NF'', [''Violation: A -> B violates BCNF'', ''Violation: D -> A violates BCNF''])"
  using scenario_B_level [OF set_order_sorted] set_order_sorted by simp

end
